theory Spec2Isabelle
  imports Main
begin

section \<open>Values of the upstream payload\<close>

text \<open>
  The program (src/main.js) reads JSON and compares, tests and copies the scalars it
  finds there. A scalar is modelled by \<open>jsval\<close>: a property that is absent reads as
  \<open>JUndefined\<close>. Equality of \<open>jsval\<close> is the equality a JavaScript \<open>Set\<close> and
  \<open>!==\<close> use on such scalars. Catalog ids are integers, so a number is an \<open>int\<close>.
  Ids that are themselves arrays or objects are outside this model.
\<close>

datatype jsval = JUndefined | JNull | JBool bool | JNum int | JStr string

text \<open>What \<open>if (v)\<close> and \<open>a && v\<close> test.\<close>

fun truthy :: "jsval \<Rightarrow> bool" where
  "truthy JUndefined = False"
| "truthy JNull = False"
| "truthy (JBool b) = b"
| "truthy (JNum n) = (n \<noteq> 0)"
| "truthy (JStr s) = (s \<noteq> [])"

text \<open>\<open>Number.prototype.toString\<close> on a non-negative integer: its decimal digits.\<close>

definition digit :: "nat \<Rightarrow> char" where
  "digit d = ''0123456789'' ! d"

fun toString :: "nat \<Rightarrow> string" where
  "toString n = (if n < 10 then [digit n] else toString (n div 10) @ [digit (n mod 10)])"

declare toString.simps [simp del]

text \<open>
  A plain object used as a dictionary (\<open>bundled\<close>, \<open>grouped\<close>, \<open>results\<close>) is a list of
  key/value pairs in the order \<open>Object.keys\<close> lists them. \<open>obj_get\<close> is \<open>o[key]\<close>
  and \<open>obj_set\<close> is \<open>o[key] = v\<close>: an existing key keeps its place, a new one goes last.
\<close>

type_synonym 'v obj = "(string \<times> 'v) list"

fun obj_get :: "'v obj \<Rightarrow> string \<Rightarrow> 'v option" where
  "obj_get [] key = None"
| "obj_get ((k, w) # kvs) key = (if k = key then Some w else obj_get kvs key)"

fun obj_set :: "string \<Rightarrow> 'v \<Rightarrow> 'v obj \<Rightarrow> 'v obj" where
  "obj_set key v [] = [(key, v)]"
| "obj_set key v ((k, w) # kvs) =
     (if k = key then (k, v) # kvs else (k, w) # obj_set key v kvs)"

text \<open>\<open>o[key] = o[key] || []; o[key].push(v)\<close>, as lines 116-117 and 145-146 do.\<close>

definition obj_push :: "string \<Rightarrow> 'a \<Rightarrow> 'a list obj \<Rightarrow> 'a list obj" where
  "obj_push key v ob =
     (let bucket = (case obj_get ob key of None \<Rightarrow> [] | Some vs \<Rightarrow> vs)
      in obj_set key (bucket @ [v]) ob)"

section \<open>Catalog items and persisted records\<close>

text \<open>
  A sub-item \<open>b\<close> of \<open>item.bundledItems\<close> is read through \<open>b.type\<close> and \<open>b.id\<close>;
  an upstream item through \<open>item.id\<close>, \<open>item.name\<close> and \<open>item.bundledItems\<close>
  (\<open>None\<close> when the property is absent or null).
\<close>

record sub_item =
  b_type :: jsval
  b_id :: jsval

record catalog_item =
  item_id :: jsval
  item_name :: jsval
  item_bundledItems :: "sub_item list option"

text \<open>
  The record pushed to \<open>allItems\<close> and written to the file:
  \<open>{ id, name }\<close> with \<open>bundledItems\<close> set only at line 120.
\<close>

record persisted_record =
  rec_id :: jsval
  rec_name :: jsval
  rec_bundledItems :: "jsval list obj option"

subsection \<open>The record transformer (fetchAPI, lines 108-121)\<close>

text \<open>The filter of line 114: \<open>b.type !== "UserOutfit" && b.id\<close>.\<close>

definition retained :: "sub_item \<Rightarrow> bool" where
  "retained b = (b_type b \<noteq> JStr ''UserOutfit'' \<and> truthy (b_id b))"

text \<open>
  One round of the inner \<open>forEach\<close> (lines 113-119) on the pair of \<open>counter\<close> and
  \<open>bundled\<close>: \<open>counter++\<close> stands inside the \<open>if\<close>.
\<close>

definition bundle_step :: "sub_item \<Rightarrow> nat \<times> jsval list obj \<Rightarrow> nat \<times> jsval list obj" where
  "bundle_step b = (\<lambda>(counter, bundled).
     if retained b
     then (let key = toString counter
           in (counter + 1, obj_push key (b_id b) bundled))
     else (counter, bundled))"

definition transform :: "catalog_item \<Rightarrow> persisted_record" where
  "transform item =
     (let record = \<lparr>rec_id = item_id item, rec_name = item_name item, rec_bundledItems = None\<rparr>
      in case item_bundledItems item of
           None \<Rightarrow> record
         | Some bs \<Rightarrow>
             if length bs \<noteq> 0
             then (let bundled = snd (fold bundle_step bs (1, []))
                   in if length (map fst bundled) \<noteq> 0
                      then record\<lparr>rec_bundledItems := Some bundled\<rparr>
                      else record)
             else record)"

section \<open>The fetcher (fetchJSON, lines 56-87)\<close>

text \<open>
  What \<open>JSON.parse\<close> makes of a response body: \<open>res.data\<close> is \<open>None\<close> unless it is
  an array (the test of line 104), \<open>res.nextPageCursor\<close> is \<open>None\<close> when absent or null.
\<close>

record page =
  res_data :: "catalog_item list option"
  res_nextPageCursor :: "string option"

text \<open>
  On one \<open>https.get\<close> one of three things happens first: the request emits
  \<open>error\<close>, a response arrives with a status code and a body (\<open>None\<close> when
  \<open>JSON.parse\<close> throws on it), or the 30000 ms timer fires. The timer only rejects the
  promise (line 59) and leaves the request open, so after it the request may still emit
  \<open>error\<close> or deliver a response: the \<open>aftermath\<close> of the timeout. A request that
  has emitted \<open>error\<close> or delivered its response has no further event here.
\<close>

datatype aftermath = Silence | LateResponse nat "page option" | LateError string

datatype attempt = ConnectionError string | NoResponse aftermath | Response nat "page option"

datatype fetch_error = RequestTimeout | HttpStatus nat | JsonParseError | NetworkError string

text \<open>
  \<open>tryFetch\<close> gets the outcome of each attempt from \<open>net\<close> and returns the delays
  (in ms) waited before each further attempt, with what the promise settles to. A promise
  keeps its first settlement. After a timeout the handlers of the open request still run:
  those of a late response only call \<open>clearTimeout\<close>, \<open>resolve\<close> and \<open>reject\<close>, which
  have no effect any more; the \<open>error\<close> handler (lines 78-82) tests nothing but
  \<open>attempt < retries\<close> and starts the next attempt, whose settlement is dropped.
\<close>

function tryFetch :: "(nat \<Rightarrow> attempt) \<Rightarrow> nat \<Rightarrow> nat \<Rightarrow> nat list \<times> (fetch_error + page)" where
  "tryFetch net retries attempt =
     (case net attempt of
        NoResponse later \<Rightarrow>
          (case later of
             Silence \<Rightarrow> ([], Inl RequestTimeout)
           | LateResponse statusCode body \<Rightarrow> ([], Inl RequestTimeout)
           | LateError e \<Rightarrow>
               if attempt < retries
               then (case tryFetch net retries (attempt + 1) of
                       (waits, dropped) \<Rightarrow> (2000 * attempt # waits, Inl RequestTimeout))
               else ([], Inl RequestTimeout))
      | Response statusCode body \<Rightarrow>
          if statusCode \<noteq> 200 then ([], Inl (HttpStatus statusCode))
          else (case body of
                  Some res \<Rightarrow> ([], Inr res)
                | None \<Rightarrow> ([], Inl JsonParseError))
      | ConnectionError e \<Rightarrow>
          if attempt < retries
          then (case tryFetch net retries (attempt + 1) of
                  (waits, settled) \<Rightarrow> (2000 * attempt # waits, settled))
          else ([], Inl (NetworkError e)))"
  by pat_completeness auto
termination
  by (relation "measure (\<lambda>(net, retries, attempt). retries - attempt)") auto

declare tryFetch.simps [simp del]

definition fetchJSON :: "(nat \<Rightarrow> attempt) \<Rightarrow> nat \<Rightarrow> nat list \<times> (fetch_error + page)" where
  "fetchJSON net retries = tryFetch net retries 1"

section \<open>The paginator (fetchAPI, lines 89-138)\<close>

record api =
  name :: string
  url :: string
  outputFile :: string

text \<open>\<open>existingData\<close>: the loaded items and the \<open>Set\<close> of their ids.\<close>

record existingData =
  items :: "persisted_record list"
  ids :: "jsval set"

text \<open>The locals \<open>allItems\<close>, \<open>newCount\<close> and \<open>duplicateCount\<close>, returned at line 137.\<close>

record fetched =
  allItems :: "persisted_record list"
  newCount :: nat
  duplicateCount :: nat

text \<open>
  The upstream is the list of its answers to the successive calls of \<open>fetchJSON\<close>: each
  answer gives, for the URL requested, the outcome of every attempt.
\<close>

type_synonym network = "(string \<Rightarrow> nat \<Rightarrow> attempt) list"

text \<open>
  \<open>String.prototype.trim\<close> on a cursor: cursors are ASCII, where the white space and
  line terminators that \<open>trim\<close> removes are the six characters below.
\<close>

definition is_space :: "char \<Rightarrow> bool" where
  "is_space c = (c \<in> set [CHR 0x09, CHR 0x0A, CHR 0x0B, CHR 0x0C, CHR 0x0D, CHR 0x20])"

definition trim :: "string \<Rightarrow> string" where
  "trim s = rev (dropWhile is_space (rev (dropWhile is_space s)))"

text \<open>Line 101.\<close>

definition request_url :: "api \<Rightarrow> string option \<Rightarrow> string" where
  "request_url a cursor =
     (case cursor of
        Some c \<Rightarrow> if c \<noteq> [] then url a @ ''&Cursor='' @ c else url a
      | None \<Rightarrow> url a)"

text \<open>The loop test of line 132: \<open>cursor && cursor.trim() !== ""\<close>.\<close>

definition more_pages :: "string option \<Rightarrow> bool" where
  "more_pages cursor = (case cursor of Some c \<Rightarrow> c \<noteq> [] \<and> trim c \<noteq> [] | None \<Rightarrow> False)"

text \<open>
  Lines 105-126, one item of a page: \<open>existingData.ids\<close> is updated in place, so the
  set is part of the state.
\<close>

definition process_item :: "catalog_item \<Rightarrow> fetched \<times> existingData \<Rightarrow> fetched \<times> existingData" where
  "process_item item = (\<lambda>(acc, existingData).
     if item_id item \<in> ids existingData
     then (acc\<lparr>duplicateCount := duplicateCount acc + 1\<rparr>, existingData)
     else (acc\<lparr>allItems := allItems acc @ [transform item], newCount := newCount acc + 1\<rparr>,
           existingData\<lparr>ids := insert (item_id item) (ids existingData)\<rparr>))"

text \<open>Lines 104-128, one page.\<close>

definition process_page :: "page \<Rightarrow> fetched \<times> existingData \<Rightarrow> fetched \<times> existingData" where
  "process_page res st = (case res_data res of Some its \<Rightarrow> fold process_item its st | None \<Rightarrow> st)"

text \<open>
  The \<open>do ... while\<close> inside \<open>try\<close> (lines 97-132). A rejected \<open>fetchJSON\<close> leaves the
  loop with the state as it is and the error for the \<open>catch\<close>. Every round takes one
  answer of the upstream; when none is left the call has no result (\<open>None\<close>).
\<close>

fun paginate :: "api \<Rightarrow> string option \<Rightarrow> network \<Rightarrow> fetched \<times> existingData \<Rightarrow>
    ((fetched \<times> existingData) \<times> fetch_error option \<times> network) option" where
  "paginate a cursor [] st = None"
| "paginate a cursor (answer # net) st =
     (case snd (fetchJSON (answer (request_url a cursor)) 3) of
        Inl e \<Rightarrow> Some (st, Some e, net)
      | Inr res \<Rightarrow>
          (let st' = process_page res st;
               cursor' = res_nextPageCursor res
           in if more_pages cursor' then paginate a cursor' net st'
              else Some (st', None, net)))"

text \<open>
  \<open>fetchAPI\<close>: the \<open>catch\<close> only logs, then line 137 returns the three locals. The
  updated \<open>existingData\<close> and the rest of the upstream's answers are returned with them.
\<close>

definition fetchAPI :: "api \<Rightarrow> existingData \<Rightarrow> network \<Rightarrow> (fetched \<times> existingData \<times> network) option" where
  "fetchAPI a existingData net =
     (case paginate a (Some []) net
             (\<lparr>allItems = [], newCount = 0, duplicateCount = 0\<rparr>, existingData) of
        None \<Rightarrow> None
      | Some ((result, existingData'), caught, net') \<Rightarrow> Some (result, existingData', net'))"

section \<open>The store (loadData, lines 26-38; saveData, lines 40-54)\<close>

text \<open>
  The object written at lines 42-47. A file read back may lack \<open>data\<close>
  (\<open>None\<close>: absent, null or otherwise falsy, so that \<open>content.data || []\<close> is \<open>[]\<close>).
  \<open>JSON.parse\<close> gives back what \<open>JSON.stringify\<close> wrote of these records.
\<close>

record catalog_document =
  keyword :: jsval
  totalItems :: nat
  lastUpdate :: string
  data :: "persisted_record list option"

text \<open>
  A file is missing (\<open>fs.existsSync\<close> is false), cannot be read (\<open>fs.readFileSync\<close>
  throws), holds text that \<open>JSON.parse\<close> rejects, or holds a document.
\<close>

datatype file_state = Missing | Unreadable | Unparsable | Stored catalog_document

text \<open>
  The world of a run: the files; for each file whether \<open>fs.writeFileSync\<close> throws
  (\<open>Some s\<close>: it throws and leaves the file in state \<open>s\<close>); what
  \<open>new Date().toISOString()\<close> returns; and the answers of the upstream still to come.
  Log lines are not modelled.
\<close>

record system =
  files :: "string \<Rightarrow> file_state"
  write_error :: "string \<Rightarrow> file_state option"
  clock :: string
  upstream :: network

datatype io_error = ReadFailure | SyntaxError

text \<open>The \<open>try\<close> block of \<open>loadData\<close>: \<open>Inr None\<close> when the \<open>if\<close> of line 28 is not taken.\<close>

definition read_document :: "string \<Rightarrow> system \<Rightarrow> io_error + existingData option" where
  "read_document file sys =
     (case files sys file of
        Missing \<Rightarrow> Inr None
      | Unreadable \<Rightarrow> Inl ReadFailure
      | Unparsable \<Rightarrow> Inl SyntaxError
      | Stored content \<Rightarrow>
          (let its = (case data content of Some xs \<Rightarrow> xs | None \<Rightarrow> [])
           in Inr (Some \<lparr>items = its, ids = set (map rec_id its)\<rparr>)))"

definition loadData :: "string \<Rightarrow> system \<Rightarrow> existingData" where
  "loadData file sys =
     (case read_document file sys of
        Inr (Some existing) \<Rightarrow> existing
      | Inr None \<Rightarrow> \<lparr>items = [], ids = {}\<rparr>
      | Inl e \<Rightarrow> \<lparr>items = [], ids = {}\<rparr>)"

definition saveData :: "persisted_record list \<Rightarrow> string \<Rightarrow> system \<Rightarrow> bool \<times> system" where
  "saveData its file sys =
     (let output = \<lparr>keyword = JNull, totalItems = length its,
                    lastUpdate = clock sys, data = Some its\<rparr>
      in case write_error sys file of
           None \<Rightarrow> (True, sys\<lparr>files := (files sys)(file := Stored output)\<rparr>)
         | Some left \<Rightarrow> (False, sys\<lparr>files := (files sys)(file := left)\<rparr>))"

section \<open>The reconciler (processAPIs, lines 140-175)\<close>

definition APIs :: "api list" where
  "APIs =
     [\<lparr>name = ''Basic API'',
       url = ''https://catalog.roproxy.com/v1/search/items/details?Category=12&Subcategory=39&Limit=30'',
       outputFile = ''emotedata.json''\<rparr>,
      \<lparr>name = ''Latest API'',
       url = ''https://catalog.roproxy.com/v1/search/items/details?Category=12&Subcategory=39&Limit=30&salesTypeFilter=1&SortType=3'',
       outputFile = ''emotedata.json''\<rparr>,
      \<lparr>name = ''Animation API'',
       url = ''https://catalog.roproxy.com/v1/search/items/details?Category=12&Subcategory=38&salesTypeFilter=1&Limit=30'',
       outputFile = ''animationdata.json''\<rparr>]"

text \<open>Lines 144-148.\<close>

definition grouped :: "api list obj" where
  "grouped = fold (\<lambda>a acc. obj_push (outputFile a) a acc) APIs []"

text \<open>What \<open>results[file]\<close> holds (line 169).\<close>

record target_result =
  success :: bool
  total :: nat
  newTotal :: nat
  dupTotal :: nat

text \<open>
  The inner loop (lines 160-166) on the locals \<open>allItems\<close>, \<open>newTotal\<close> and
  \<open>dupTotal\<close> of \<open>processAPIs\<close>; every source gets the same \<open>existingData\<close>.
\<close>

fun fetchAll :: "api list \<Rightarrow> persisted_record list \<times> nat \<times> nat \<Rightarrow> existingData \<Rightarrow> network \<Rightarrow>
    ((persisted_record list \<times> nat \<times> nat) \<times> existingData \<times> network) option" where
  "fetchAll [] totals existingData net = Some (totals, existingData, net)"
| "fetchAll (a # apis) (merged, new, dup) existingData net =
     (case fetchAPI a existingData net of
        None \<Rightarrow> None
      | Some (result, existingData', net') \<Rightarrow>
          fetchAll apis
            (merged @ allItems result, new + newCount result, dup + duplicateCount result)
            existingData' net')"

text \<open>Lines 155-166: load, copy the loaded items, run the sources.\<close>

definition gather :: "string \<Rightarrow> api list \<Rightarrow> system \<Rightarrow>
    ((persisted_record list \<times> nat \<times> nat) \<times> existingData \<times> network) option" where
  "gather file apis sys =
     (let existingData = loadData file sys
      in fetchAll apis (items existingData, 0, 0) existingData (upstream sys))"

text \<open>The body of the loop over the targets (lines 153-170).\<close>

definition processTarget :: "string \<Rightarrow> api list \<Rightarrow> system \<Rightarrow> (target_result \<times> system) option" where
  "processTarget file apis sys =
     (case gather file apis sys of
        None \<Rightarrow> None
      | Some ((merged, new, dup), existingData, net) \<Rightarrow>
          (case saveData merged file (sys\<lparr>upstream := net\<rparr>) of
             (saved, sys') \<Rightarrow>
               Some (\<lparr>success = saved, total = length merged, newTotal = new, dupTotal = dup\<rparr>,
                     sys')))"

fun processEntries :: "(string \<times> api list) list \<Rightarrow> target_result obj \<Rightarrow> system \<Rightarrow>
    (target_result obj \<times> system) option" where
  "processEntries [] results sys = Some (results, sys)"
| "processEntries ((file, apis) # rest) results sys =
     (case processTarget file apis sys of
        None \<Rightarrow> None
      | Some (r, sys') \<Rightarrow> processEntries rest (obj_set file r results) sys')"

definition processAPIs :: "system \<Rightarrow> (target_result obj \<times> system) option" where
  "processAPIs sys = processEntries grouped [] sys"

section \<open>Notions used in the statements\<close>

subsection \<open>Bundles\<close>

text \<open>
  \<open>numbered c rs\<close> binds the sub-items \<open>rs\<close>, in order, to the keys \<open>c\<close>, \<open>c + 1\<close>, ...,
  each to the one-element sequence of its id.
\<close>

definition numbered :: "nat \<Rightarrow> sub_item list \<Rightarrow> jsval list obj" where
  "numbered c rs = map (\<lambda>(j, b). (toString j, [b_id b])) (zip [c..<c + length rs] rs)"

text \<open>
  The counter as the specification's first wording has it (section 4.2: "incrementing for
  every sub-item encountered, including ones that get filtered out"): the same round with
  the increment on both branches. It is compared with \<open>bundle_step\<close> below.
\<close>

definition claimed_bundle_step :: "sub_item \<Rightarrow> nat \<times> jsval list obj \<Rightarrow> nat \<times> jsval list obj" where
  "claimed_bundle_step b = (\<lambda>(counter, bundled).
     if retained b
     then (counter + 1, obj_push (toString counter) (b_id b) bundled)
     else (counter + 1, bundled))"

subsection \<open>Pages and items\<close>

definition page_items :: "page \<Rightarrow> catalog_item list" where
  "page_items res = (case res_data res of Some its \<Rightarrow> its | None \<Rightarrow> [])"

text \<open>
  Of a sequence of upstream items met in this order with the ids \<open>seen\<close> known at the
  start: \<open>fresh\<close> are the items whose id is met for the first time, \<open>stale\<close> counts
  the others.
\<close>

fun fresh :: "jsval set \<Rightarrow> catalog_item list \<Rightarrow> catalog_item list" where
  "fresh seen [] = []"
| "fresh seen (item # its) =
     (if item_id item \<in> seen then fresh seen its
      else item # fresh (insert (item_id item) seen) its)"

fun stale :: "jsval set \<Rightarrow> catalog_item list \<Rightarrow> nat" where
  "stale seen [] = 0"
| "stale seen (item # its) =
     (if item_id item \<in> seen then Suc (stale seen its)
      else stale (insert (item_id item) seen) its)"

text \<open>
  \<open>served a cursor net pages\<close>: starting at \<open>cursor\<close>, the answers \<open>net\<close> deliver the
  pages \<open>pages\<close> one after the other, each with a cursor that asks for a further page.
  \<open>next_cursor\<close> is the cursor after them.
\<close>

fun served :: "api \<Rightarrow> string option \<Rightarrow> network \<Rightarrow> page list \<Rightarrow> bool" where
  "served a cursor [] [] = True"
| "served a cursor (answer # net) (res # pages) =
     (snd (fetchJSON (answer (request_url a cursor)) 3) = Inr res \<and>
      more_pages (res_nextPageCursor res) \<and>
      served a (res_nextPageCursor res) net pages)"
| "served a cursor [] (res # pages) = False"
| "served a cursor (answer # net) [] = False"

fun next_cursor :: "string option \<Rightarrow> page list \<Rightarrow> string option" where
  "next_cursor cursor [] = cursor"
| "next_cursor cursor (res # pages) = next_cursor (res_nextPageCursor res) pages"

text \<open>
  The walk of \<open>paginate\<close> without its state: the items of the pages it reads, the error
  that stopped it if any, and the answers left. \<open>crawlAll\<close> does the same for the
  sources of a target, one after the other.
\<close>

fun crawl :: "api \<Rightarrow> string option \<Rightarrow> network \<Rightarrow>
    (catalog_item list \<times> fetch_error option \<times> network) option" where
  "crawl a cursor [] = None"
| "crawl a cursor (answer # net) =
     (case snd (fetchJSON (answer (request_url a cursor)) 3) of
        Inl e \<Rightarrow> Some ([], Some e, net)
      | Inr res \<Rightarrow>
          if more_pages (res_nextPageCursor res)
          then map_option (\<lambda>(its, rest). (page_items res @ its, rest))
                 (crawl a (res_nextPageCursor res) net)
          else Some (page_items res, None, net))"

fun crawlAll :: "api list \<Rightarrow> network \<Rightarrow> (catalog_item list \<times> network) option" where
  "crawlAll [] net = Some ([], net)"
| "crawlAll (a # apis) net =
     (case crawl a (Some []) net of
        None \<Rightarrow> None
      | Some (its, caught, net') \<Rightarrow>
          map_option (\<lambda>(its', rest). (its @ its', rest)) (crawlAll apis net'))"

subsection \<open>Outcomes\<close>

text \<open>
  What the promise of \<open>fetchJSON\<close> settles to when an attempt with this outcome is the
  one that settles it; \<open>refused\<close> marks the connection-level failures, \<open>lingers\<close>
  the timeouts whose request emits \<open>error\<close> afterwards.
\<close>

definition settle :: "attempt \<Rightarrow> fetch_error + page" where
  "settle outcome =
     (case outcome of
        NoResponse later \<Rightarrow> Inl RequestTimeout
      | Response statusCode body \<Rightarrow>
          if statusCode \<noteq> 200 then Inl (HttpStatus statusCode)
          else (case body of Some res \<Rightarrow> Inr res | None \<Rightarrow> Inl JsonParseError)
      | ConnectionError e \<Rightarrow> Inl (NetworkError e))"

definition refused :: "attempt \<Rightarrow> bool" where
  "refused outcome = (case outcome of ConnectionError e \<Rightarrow> True | _ \<Rightarrow> False)"

definition lingers :: "attempt \<Rightarrow> bool" where
  "lingers outcome = (case outcome of NoResponse (LateError e) \<Rightarrow> True | _ \<Rightarrow> False)"

text \<open>
  An answer that ends the pagination of a source whatever URL is requested: the request
  fails, or the page it delivers has no cursor that asks for a further page.
\<close>

definition ends_pagination :: "(string \<Rightarrow> nat \<Rightarrow> attempt) \<Rightarrow> bool" where
  "ends_pagination answer =
     (\<forall>u. case snd (fetchJSON (answer u) 3) of
             Inl e \<Rightarrow> True
           | Inr res \<Rightarrow> \<not> more_pages (res_nextPageCursor res))"

text \<open>
  The \<open>data\<close> sequence of the document in a file, if there is one; what a run of a target
  reports together with the data then in the file; and a second run of a target against an
  upstream that gives the same answers again.
\<close>

definition saved_data :: "system \<Rightarrow> string \<Rightarrow> persisted_record list option" where
  "saved_data sys file = (case files sys file of Stored content \<Rightarrow> data content | _ \<Rightarrow> None)"

definition after_run :: "string \<Rightarrow> (target_result \<times> system) option \<Rightarrow>
    (target_result \<times> persisted_record list option) option" where
  "after_run file run = map_option (\<lambda>(r, sys'). (r, saved_data sys' file)) run"

definition rerun :: "string \<Rightarrow> api list \<Rightarrow> system \<Rightarrow> (target_result \<times> system) option" where
  "rerun file apis sys =
     (case processTarget file apis sys of
        None \<Rightarrow> None
      | Some (r1, sys1) \<Rightarrow> processTarget file apis (sys1\<lparr>upstream := upstream sys\<rparr>))"

section \<open>Example data\<close>

text \<open>Sub-items, items, answers and systems on which the statements below are evaluated.\<close>

definition ex_outfit :: sub_item where
  "ex_outfit = \<lparr>b_type = JStr ''UserOutfit'', b_id = JNum 5\<rparr>"

definition ex_hat :: sub_item where
  "ex_hat = \<lparr>b_type = JStr ''Hat'', b_id = JNum 7\<rparr>"

definition ex_scarf :: sub_item where
  "ex_scarf = \<lparr>b_type = JStr ''Scarf'', b_id = JNum 9\<rparr>"

definition ex_unidentified :: sub_item where
  "ex_unidentified = \<lparr>b_type = JStr ''Hat'', b_id = JNull\<rparr>"

definition ex_bundle :: "sub_item list \<Rightarrow> catalog_item" where
  "ex_bundle bs = \<lparr>item_id = JNum 1, item_name = JStr ''Bundle'', item_bundledItems = Some bs\<rparr>"

definition ex_item :: "int \<Rightarrow> catalog_item" where
  "ex_item n = \<lparr>item_id = JNum n, item_name = JStr ''Emote'', item_bundledItems = None\<rparr>"

definition ex_record :: "int \<Rightarrow> persisted_record" where
  "ex_record n = \<lparr>rec_id = JNum n, rec_name = JStr ''Emote'', rec_bundledItems = None\<rparr>"

definition ok_page :: "catalog_item list \<Rightarrow> string option \<Rightarrow> string \<Rightarrow> nat \<Rightarrow> attempt" where
  "ok_page its cursor = (\<lambda>url attempt. Response 200 (Some \<lparr>res_data = Some its, res_nextPageCursor = cursor\<rparr>))"

definition unavailable :: "string \<Rightarrow> nat \<Rightarrow> attempt" where
  "unavailable = (\<lambda>url attempt. Response 503 None)"

definition ex_sys :: "file_state \<Rightarrow> network \<Rightarrow> system" where
  "ex_sys content net =
     \<lparr>files = (\<lambda>file. if file = ''emotedata.json'' then content else Missing),
      write_error = (\<lambda>file. None),
      clock = ''2024-01-01T00:00:00.000Z'',
      upstream = net\<rparr>"


definition ex_repeats :: network where
  "ex_repeats = [ok_page [ex_item 1, ex_item 2, ex_item 1] None, ok_page [ex_item 2, ex_item 3] None]"

definition ex_two_pages :: network where
  "ex_two_pages = [ok_page [ex_item 1, ex_item 2] None, ok_page [ex_item 2, ex_item 3] None]"

lemmas ex_defs = ex_outfit_def ex_hat_def ex_scarf_def ex_bundle_def

lemmas run_defs = processTarget_def gather_def loadData_def read_document_def saveData_def
  fetchAPI_def fetchJSON_def tryFetch.simps process_page_def process_item_def transform_def
  request_url_def more_pages_def trim_def is_space_def saved_data_def after_run_def
  ex_item_def ex_record_def ok_page_def ex_sys_def APIs_def Let_def

section \<open>Decimal keys and dictionaries\<close>

lemma digit_inj: "a < 10 \<Longrightarrow> b < 10 \<Longrightarrow> digit a = digit b \<Longrightarrow> a = b"
  unfolding digit_def by (subst (asm) nth_eq_iff_index_eq) simp_all

lemma toString_nonempty: "toString n \<noteq> []"
  by (subst toString.simps) simp

lemma toString_inj: "toString n = toString m \<Longrightarrow> n = m"
proof (induction n arbitrary: m rule: toString.induct)
  case (1 n)
  show ?case
  proof (cases "n < 10")
    case True
    then have n1: "toString n = [digit n]" by (subst toString.simps) simp
    show ?thesis
    proof (cases "m < 10")
      case True
      then have "toString m = [digit m]" by (subst toString.simps) simp
      with n1 "1.prems" have "digit n = digit m" by simp
      with \<open>n < 10\<close> True show ?thesis by (rule digit_inj)
    next
      case False
      then have "toString m = toString (m div 10) @ [digit (m mod 10)]"
        by (subst toString.simps) simp
      with n1 "1.prems" toString_nonempty [of "m div 10"] show ?thesis by (cases "toString (m div 10)") auto
    qed
  next
    case False
    then have n2: "toString n = toString (n div 10) @ [digit (n mod 10)]"
      by (subst toString.simps) simp
    show ?thesis
    proof (cases "m < 10")
      case True
      then have "toString m = [digit m]" by (subst toString.simps) simp
      with n2 "1.prems" toString_nonempty [of "n div 10"] show ?thesis by (cases "toString (n div 10)") auto
    next
      case m: False
      then have "toString m = toString (m div 10) @ [digit (m mod 10)]"
        by (subst toString.simps) simp
      with n2 "1.prems" have e: "toString (n div 10) = toString (m div 10)"
        and d: "digit (n mod 10) = digit (m mod 10)" by simp_all
      from "1.IH" [OF False e] have "n div 10 = m div 10" .
      moreover from d have "n mod 10 = m mod 10" by (intro digit_inj) simp_all
      ultimately show ?thesis by (metis div_mult_mod_eq)
    qed
  qed
qed

lemma obj_get_None: "obj_get ob key = None \<longleftrightarrow> key \<notin> fst ` set ob"
  by (induction ob) (auto split: if_splits)

lemma obj_set_fresh: "key \<notin> fst ` set ob \<Longrightarrow> obj_set key v ob = ob @ [(key, v)]"
  by (induction ob) auto

lemma obj_push_fresh: "key \<notin> fst ` set ob \<Longrightarrow> obj_push key v ob = ob @ [(key, [v])]"
  using obj_get_None [of ob key] by (simp add: obj_push_def obj_set_fresh)

lemma numbered_Nil: "numbered c [] = []"
  by (simp add: numbered_def)

lemma numbered_Cons: "numbered c (b # rs) = (toString c, [b_id b]) # numbered (Suc c) rs"
proof -
  have "[c..<c + length (b # rs)] = c # [Suc c..<Suc c + length rs]"
    by (subst upt_rec) simp
  then show ?thesis unfolding numbered_def by simp
qed

lemma numbered_eq_Nil: "numbered c rs = [] \<longleftrightarrow> rs = []"
  by (cases rs) (simp_all add: numbered_Nil numbered_Cons)

lemma fold_bundle_step:
  "\<forall>k \<in> fst ` set acc. \<exists>j<c. k = toString j \<Longrightarrow>
   fold bundle_step bs (c, acc) =
     (c + length (filter retained bs), acc @ numbered c (filter retained bs))"
proof (induction bs arbitrary: c acc)
  case Nil
  show ?case by (simp add: numbered_Nil)
next
  case (Cons b bs)
  show ?case
  proof (cases "retained b")
    case False
    with Cons show ?thesis by (simp add: bundle_step_def)
  next
    case True
    have fresh: "toString c \<notin> fst ` set acc"
    proof
      assume "toString c \<in> fst ` set acc"
      with Cons.prems obtain j where "j < c" "toString c = toString j" by blast
      then show False using toString_inj by blast
    qed
    let ?acc = "acc @ [(toString c, [b_id b])]"
    have inv: "\<forall>k \<in> fst ` set ?acc. \<exists>j<Suc c. k = toString j"
      using Cons.prems by (auto intro: less_SucI)
    have "fold bundle_step (b # bs) (c, acc) = fold bundle_step bs (Suc c, ?acc)"
      using True fresh by (simp add: bundle_step_def obj_push_fresh)
    also have "\<dots> = (Suc c + length (filter retained bs), ?acc @ numbered (Suc c) (filter retained bs))"
      by (rule Cons.IH [OF inv])
    finally show ?thesis using True by (simp add: numbered_Cons)
  qed
qed

lemma bundled_numbered:
  "snd (fold bundle_step bs (1, [])) = numbered 1 (filter retained bs)"
  using fold_bundle_step [of "[]" 1 bs] by simp

lemma transform_bundledItems:
  "rec_bundledItems (transform item) =
     (case item_bundledItems item of
        None \<Rightarrow> None
      | Some bs \<Rightarrow> if filter retained bs = [] then None else Some (numbered 1 (filter retained bs)))"
  by (simp add: transform_def bundled_numbered numbered_eq_Nil Let_def filter_empty_conv
        del: One_nat_def split: option.splits)

section \<open>Properties of the record transformer\<close>

lemma numbered_keys: "map fst (numbered c rs) = map toString [c..<c + length rs]"
  unfolding numbered_def by (induction rs arbitrary: c rule: rev_induct) simp_all

text \<open>
  Claim C6, as amended. The claim has the counter advance on every sub-item, so that a key
  is the sub-item's index among all sub-items. In the code \<open>counter++\<close> is inside the
  \<open>if\<close> of line 114: the counter starts at 1 and advances only when a sub-item is
  retained. After the loop it is one more than the number of retained sub-items, and the
  j-th retained sub-item is bound to the key \<open>toString j\<close>; when at least one sub-item
  is retained this mapping is the record's \<open>bundledItems\<close>.
\<close>

theorem transform_positional_keys:
  "fold bundle_step bs (1, []) = (1 + length (filter retained bs), numbered 1 (filter retained bs)) \<and>
   (item_bundledItems item = Some bs \<longrightarrow> filter retained bs \<noteq> [] \<longrightarrow>
      rec_bundledItems (transform item) = Some (numbered 1 (filter retained bs)))"
  using fold_bundle_step [of "[]" 1 bs] by (simp add: transform_bundledItems)

theorem transform_positional_keys_witness:
  "fold bundle_step [ex_outfit, ex_hat, ex_scarf] (1, []) = (3, [(''1'', [JNum 7]), (''2'', [JNum 9])]) \<and>
   rec_bundledItems (transform (ex_bundle [ex_outfit, ex_hat, ex_scarf])) =
     Some [(''1'', [JNum 7]), (''2'', [JNum 9])]"
  using transform_positional_keys [of "[ex_outfit, ex_hat, ex_scarf]" "ex_bundle [ex_outfit, ex_hat, ex_scarf]"]
  by (simp add: ex_defs retained_def numbered_def toString.simps digit_def)

text \<open>
  Claim C6 as stated fails: of an outfit followed by a hat, the hat is the second
  sub-item, and the claimed counter would file it under "2"; the code files it under "1".
\<close>

theorem counter_every_sub_item_counterexample:
  "rec_bundledItems (transform (ex_bundle [ex_outfit, ex_hat])) = Some [(''1'', [JNum 7])] \<and>
   snd (fold claimed_bundle_step [ex_outfit, ex_hat] (1, [])) = [(''2'', [JNum 7])] \<and>
   rec_bundledItems (transform (ex_bundle [ex_outfit, ex_hat])) \<noteq>
     Some (snd (fold claimed_bundle_step [ex_outfit, ex_hat] (1, [])))"
  by (simp add: ex_defs transform_def bundle_step_def claimed_bundle_step_def retained_def
      obj_push_def toString.simps digit_def)

text \<open>
  Claim C8. An item without sub-items (\<open>bundledItems\<close> absent or empty), or whose
  sub-items are all filtered out, is transformed to a record without \<open>bundledItems\<close>:
  the record is exactly \<open>{ id, name }\<close>. A sub-item is filtered out when its type is
  "UserOutfit" or its id is not truthy (null, absent, 0, the empty string or false).
\<close>

theorem transform_omits_empty_bundle:
  assumes "case item_bundledItems item of
             None \<Rightarrow> True
           | Some bs \<Rightarrow> \<forall>b \<in> set bs. b_type b = JStr ''UserOutfit'' \<or> \<not> truthy (b_id b)"
  shows "transform item =
           \<lparr>rec_id = item_id item, rec_name = item_name item, rec_bundledItems = None\<rparr>"
proof -
  have "rec_bundledItems (transform item) = None"
    using assms by (auto simp: transform_bundledItems filter_empty_conv retained_def split: option.splits)
  moreover have "rec_id (transform item) = item_id item" "rec_name (transform item) = item_name item"
    by (simp_all add: transform_def Let_def split: option.splits)
  ultimately show ?thesis by (cases "transform item") simp
qed

theorem transform_omits_empty_bundle_witness:
  "transform (ex_bundle [ex_outfit, ex_unidentified]) =
     \<lparr>rec_id = JNum 1, rec_name = JStr ''Bundle'', rec_bundledItems = None\<rparr> \<and>
   transform (ex_bundle []) =
     \<lparr>rec_id = JNum 1, rec_name = JStr ''Bundle'', rec_bundledItems = None\<rparr> \<and>
   transform \<lparr>item_id = JNum 2, item_name = JStr ''Wave'', item_bundledItems = None\<rparr> =
     \<lparr>rec_id = JNum 2, rec_name = JStr ''Wave'', rec_bundledItems = None\<rparr>"
  using transform_omits_empty_bundle [of "ex_bundle [ex_outfit, ex_unidentified]"]
    transform_omits_empty_bundle [of "ex_bundle []"]
    transform_omits_empty_bundle [of "\<lparr>item_id = JNum 2, item_name = JStr ''Wave'', item_bundledItems = None\<rparr>"]
  by (simp add: ex_defs ex_unidentified_def)

text \<open>
  Claim C10. In a record that carries \<open>bundledItems\<close>, every key is bound to a sequence
  of exactly one sub-item id, and no key occurs twice: the counter advances with every
  sub-item stored, so no bucket is used again.
\<close>

theorem bundled_buckets_singleton:
  assumes "rec_bundledItems (transform item) = Some bundled"
  shows "(\<forall>(key, bucket) \<in> set bundled. length bucket = 1) \<and> distinct (map fst bundled)"
proof -
  from assms obtain bs where b: "bundled = numbered 1 (filter retained bs)"
    by (auto simp: transform_bundledItems split: option.splits if_splits)
  have "\<forall>(key, bucket) \<in> set (numbered c rs). length bucket = 1" for c rs
    by (auto simp: numbered_def)
  moreover have "distinct (map fst (numbered c rs))" for c rs
    unfolding numbered_keys by (simp add: distinct_map inj_on_def toString_inj)
  ultimately show ?thesis unfolding b by blast
qed

theorem bundled_buckets_singleton_witness:
  "rec_bundledItems (transform (ex_bundle [ex_outfit, ex_hat, ex_scarf])) =
     Some [(''1'', [JNum 7]), (''2'', [JNum 9])] \<and>
   list_all (\<lambda>(key, bucket). length bucket = 1) [(''1'', [JNum 7]), (''2'', [JNum 9])] \<and>
   distinct (map fst [(''1'', [JNum 7 :: jsval]), (''2'', [JNum 9])])"
proof -
  have run: "rec_bundledItems (transform (ex_bundle [ex_outfit, ex_hat, ex_scarf])) =
      Some [(''1'', [JNum 7]), (''2'', [JNum 9])]"
    by (simp add: ex_defs transform_def bundle_step_def retained_def
        obj_push_def toString.simps digit_def)
  from bundled_buckets_singleton [OF run] show ?thesis using run by simp
qed

section \<open>Properties of the fetcher\<close>

text \<open>
  From attempt \<open>a\<close> on, let the attempts before \<open>k\<close> all end in a connection error, and
  let attempt \<open>k\<close> be one that is not followed by a further attempt. Then the delays are
  \<open>2000 * j\<close> for the attempts \<open>j\<close> before \<open>k\<close>, and the promise settles by attempt \<open>k\<close>.
\<close>

lemma tryFetch_settles:
  assumes "a \<le> k" "k \<le> max a retries"
    and "\<forall>j. a \<le> j \<and> j < k \<longrightarrow> refused (net j)"
    and "refused (net k) \<or> lingers (net k) \<longrightarrow> retries \<le> k"
  shows "tryFetch net retries a = (map (\<lambda>j. 2000 * j) [a..<k], settle (net k))"
  using assms
proof (induction "k - a" arbitrary: a)
  case 0
  then have "a = k" by simp
  with 0 show ?case
    by (subst tryFetch.simps)
       (auto simp: settle_def refused_def lingers_def
             split: attempt.splits aftermath.splits option.splits)
next
  case (Suc n)
  then have lt: "a < k" by simp
  with Suc.prems have "refused (net a)" by simp
  then obtain e where e: "net a = ConnectionError e" by (auto simp: refused_def split: attempt.splits)
  from lt Suc.prems(2) have "a < retries" by (simp add: max_def split: if_splits)
  have "tryFetch net retries (a + 1) = (map (\<lambda>j. 2000 * j) [a + 1..<k], settle (net k))"
  proof (rule Suc.hyps(1))
    show "n = k - (a + 1)" using Suc.hyps(2) by simp
    show "a + 1 \<le> k" using lt by simp
    show "k \<le> max (a + 1) retries" using Suc.prems(2) lt by (simp add: max_def split: if_splits)
    show "\<forall>j. a + 1 \<le> j \<and> j < k \<longrightarrow> refused (net j)" using Suc.prems(3) by simp
    show "refused (net k) \<or> lingers (net k) \<longrightarrow> retries \<le> k" by (rule Suc.prems(4))
  qed
  then show ?case using e \<open>a < retries\<close> lt
    by (subst tryFetch.simps) (simp add: upt_conv_Cons)
qed

text \<open>
  When attempt \<open>k\<close> times out before the last attempt and its request emits \<open>error\<close>
  afterwards, the promise is rejected with the timeout, and the call goes on: it waits
  \<open>2000 * k\<close> ms and runs attempt \<open>k + 1\<close>.
\<close>

lemma tryFetch_lingering:
  assumes "a \<le> k" "k < retries"
    and "\<forall>j. a \<le> j \<and> j < k \<longrightarrow> refused (net j)"
    and "net k = NoResponse (LateError e)"
  shows "tryFetch net retries a =
    (map (\<lambda>j. 2000 * j) [a..<k] @ 2000 * k # fst (tryFetch net retries (k + 1)), Inl RequestTimeout)"
  using assms
proof (induction "k - a" arbitrary: a)
  case 0
  then have "a = k" by simp
  with 0 show ?case
    by (subst tryFetch.simps) (simp split: prod.splits)
next
  case (Suc n)
  then have lt: "a < k" by simp
  with Suc.prems have "refused (net a)" by simp
  then obtain e' where e': "net a = ConnectionError e'"
    by (auto simp: refused_def split: attempt.splits)
  have "tryFetch net retries (a + 1) =
    (map (\<lambda>j. 2000 * j) [a + 1..<k] @ 2000 * k # fst (tryFetch net retries (k + 1)), Inl RequestTimeout)"
  proof (rule Suc.hyps(1))
    show "n = k - (a + 1)" using Suc.hyps(2) by simp
    show "a + 1 \<le> k" using lt by simp
    show "k < retries" by (rule Suc.prems(2))
    show "\<forall>j. a + 1 \<le> j \<and> j < k \<longrightarrow> refused (net j)" using Suc.prems(3) by simp
    show "net k = NoResponse (LateError e)" by (rule Suc.prems(4))
  qed
  then show ?case using e' lt Suc.prems(2)
    by (subst tryFetch.simps) (simp add: upt_conv_Cons)
qed

text \<open>With \<open>retries = 0\<close> the one attempt of \<open>tryFetch(1)\<close> is still made.\<close>

lemma fetchJSON_zero_retries: "fetchJSON net 0 = ([], settle (net 1))"
  unfolding fetchJSON_def
  by (subst tryFetch.simps)
     (simp add: settle_def split: attempt.splits aftermath.splits option.splits)

text \<open>
  The retry policy where it holds. Let attempt \<open>k\<close> (at most \<open>retries\<close>) follow \<open>k - 1\<close>
  attempts that all ended in a connection error. Whatever attempt \<open>k\<close> brings first settles
  the promise: a timeout, a status other than 200 and a body that does not parse reject it,
  a body that parses resolves it, and a connection error at attempt \<open>k = retries\<close> rejects
  it with this last network error. The call has waited \<open>2000 * j\<close> ms after each failed
  attempt \<open>j\<close>, and it waits no more and makes no further attempt, unless attempt \<open>k\<close> is
  a timeout before the last attempt whose request emits \<open>error\<close> afterwards.
\<close>

lemma fetchJSON_retry_policy:
  assumes "1 \<le> k" and "k \<le> retries" and "\<forall>j \<in> {1..<k}. \<exists>e. net j = ConnectionError e"
  shows "(\<forall>later. net k = NoResponse later \<longrightarrow>
            snd (fetchJSON net retries) = Inl RequestTimeout) \<and>
         (\<forall>later. net k = NoResponse later \<and> ((\<forall>e. later \<noteq> LateError e) \<or> k = retries) \<longrightarrow>
            fetchJSON net retries = (map (\<lambda>j. 2000 * j) [1..<k], Inl RequestTimeout)) \<and>
         (\<forall>statusCode body. net k = Response statusCode body \<and> statusCode \<noteq> 200 \<longrightarrow>
            fetchJSON net retries = (map (\<lambda>j. 2000 * j) [1..<k], Inl (HttpStatus statusCode))) \<and>
         (net k = Response 200 None \<longrightarrow>
            fetchJSON net retries = (map (\<lambda>j. 2000 * j) [1..<k], Inl JsonParseError)) \<and>
         (\<forall>res. net k = Response 200 (Some res) \<longrightarrow>
            fetchJSON net retries = (map (\<lambda>j. 2000 * j) [1..<k], Inr res)) \<and>
         (\<forall>e. net k = ConnectionError e \<and> k = retries \<longrightarrow>
            fetchJSON net retries = (map (\<lambda>j. 2000 * j) [1..<k], Inl (NetworkError e)))"
proof -
  have before: "\<forall>j. 1 \<le> j \<and> j < k \<longrightarrow> refused (net j)"
  proof (intro allI impI)
    fix j assume "1 \<le> j \<and> j < k"
    then have "j \<in> {1..<k}" by simp
    with assms(3) obtain e where "net j = ConnectionError e" by blast
    then show "refused (net j)" by (simp add: refused_def)
  qed
  have final: "fetchJSON net retries = (map (\<lambda>j. 2000 * j) [1..<k], settle (net k))"
    if "refused (net k) \<or> lingers (net k) \<longrightarrow> retries \<le> k"
    unfolding fetchJSON_def using assms(1,2) before that
    by (intro tryFetch_settles) (simp_all add: max_def)
  have linger: "snd (fetchJSON net retries) = Inl RequestTimeout"
    if "net k = NoResponse (LateError e)" "k < retries" for e
    unfolding fetchJSON_def using tryFetch_lingering [OF assms(1) that(2) before that(1)] by simp
  have timeout: "snd (fetchJSON net retries) = Inl RequestTimeout" if "net k = NoResponse later" for later
  proof (cases "lingers (net k) \<and> k < retries")
    case True
    with that obtain e where "net k = NoResponse (LateError e)"
      by (auto simp: lingers_def split: aftermath.splits)
    with True show ?thesis by (intro linger) simp_all
  next
    case False
    with that have "refused (net k) \<or> lingers (net k) \<longrightarrow> retries \<le> k"
      by (auto simp: refused_def)
    from final [OF this] that show ?thesis by (simp add: settle_def)
  qed
  have quiet: "fetchJSON net retries = (map (\<lambda>j. 2000 * j) [1..<k], Inl RequestTimeout)"
    if "net k = NoResponse later" "(\<forall>e. later \<noteq> LateError e) \<or> k = retries" for later
  proof -
    from that have "refused (net k) \<or> lingers (net k) \<longrightarrow> retries \<le> k"
      by (cases later) (auto simp: refused_def lingers_def)
    from final [OF this] that(1) show ?thesis by (simp add: settle_def)
  qed
  have other: "fetchJSON net retries = (map (\<lambda>j. 2000 * j) [1..<k], settle (net k))"
    if "\<exists>statusCode body. net k = Response statusCode body"
  proof -
    from that have "refused (net k) \<or> lingers (net k) \<longrightarrow> retries \<le> k"
      by (auto simp: refused_def lingers_def)
    then show ?thesis by (rule final)
  qed
  have last: "fetchJSON net retries = (map (\<lambda>j. 2000 * j) [1..<k], Inl (NetworkError e))"
    if "net k = ConnectionError e" "k = retries" for e
  proof -
    from that have "refused (net k) \<or> lingers (net k) \<longrightarrow> retries \<le> k" by simp
    from final [OF this] that(1) show ?thesis by (simp add: settle_def)
  qed
  show ?thesis
  proof (intro conjI allI impI)
    fix later assume "net k = NoResponse later"
    then show "snd (fetchJSON net retries) = Inl RequestTimeout" by (rule timeout)
  next
    fix later assume "net k = NoResponse later \<and> ((\<forall>e. later \<noteq> LateError e) \<or> k = retries)"
    then show "fetchJSON net retries = (map (\<lambda>j. 2000 * j) [1..<k], Inl RequestTimeout)"
      using quiet by blast
  next
    fix statusCode body assume "net k = Response statusCode body \<and> statusCode \<noteq> 200"
    then show "fetchJSON net retries = (map (\<lambda>j. 2000 * j) [1..<k], Inl (HttpStatus statusCode))"
      using other by (auto simp: settle_def)
  next
    assume "net k = Response 200 None"
    then show "fetchJSON net retries = (map (\<lambda>j. 2000 * j) [1..<k], Inl JsonParseError)"
      using other by (auto simp: settle_def)
  next
    fix res assume "net k = Response 200 (Some res)"
    then show "fetchJSON net retries = (map (\<lambda>j. 2000 * j) [1..<k], Inr res)"
      using other by (auto simp: settle_def)
  next
    fix e assume "net k = ConnectionError e \<and> k = retries"
    then show "fetchJSON net retries = (map (\<lambda>j. 2000 * j) [1..<k], Inl (NetworkError e))"
      using last by blast
  qed
qed

text \<open>
  Claim C7. The claim holds of what the promise settles to, and of the attempts and delays
  as long as no timeout is followed by an \<open>error\<close> event of the same request. It fails on
  the input below: the first request gets no response within 30000 ms and emits \<open>error\<close>
  after that, the second request is answered. The promise is rejected with the timeout at
  once, as the claim says, but the timer of line 59 does not close the request and the
  \<open>error\<close> handler of lines 78-82 does not look at the promise, so the call still waits
  2000 ms and makes a second attempt, where the claim has timeouts never retried. The
  \<open>error\<close> handler clears the timer, so that an error is not followed by a timeout; the
  timer does nothing to keep a timeout from being followed by a retry.
\<close>

theorem timeout_then_error_is_retried:
  "fetchJSON (\<lambda>attempt. if attempt = 1 then NoResponse (LateError ''ECONNRESET'')
                         else Response 200 (Some \<lparr>res_data = Some [], res_nextPageCursor = None\<rparr>)) 3 =
     ([2000], Inl RequestTimeout)"
  by (simp add: fetchJSON_def tryFetch.simps)

section \<open>Properties of the store\<close>

lemma loadData_ids: "ids (loadData file sys) = rec_id ` set (items (loadData file sys))"
  by (simp add: loadData_def read_document_def Let_def split: file_state.splits)

text \<open>
  Claim C9. When the file is missing, cannot be read, holds text that does not parse, or
  holds a document without \<open>data\<close>, \<open>loadData\<close> returns the empty item list with
  the empty set of ids. The exception of the \<open>try\<close> block (\<open>Inl\<close> in
  \<open>read_document\<close>) does not leave \<open>loadData\<close>.
\<close>

theorem loadData_starts_fresh:
  assumes "files sys file = Missing \<or> files sys file = Unreadable \<or> files sys file = Unparsable \<or>
    (\<exists>doc. files sys file = Stored doc \<and> data doc = None)"
  shows "loadData file sys = \<lparr>items = [], ids = {}\<rparr>"
  using assms by (auto simp: loadData_def read_document_def)

theorem loadData_starts_fresh_witness:
  "loadData ''emotedata.json'' (ex_sys Missing []) = \<lparr>items = [], ids = {}\<rparr> \<and>
   loadData ''emotedata.json'' (ex_sys Unreadable []) = \<lparr>items = [], ids = {}\<rparr> \<and>
   loadData ''emotedata.json'' (ex_sys Unparsable []) = \<lparr>items = [], ids = {}\<rparr> \<and>
   read_document ''emotedata.json'' (ex_sys Unparsable []) = Inl SyntaxError"
  using loadData_starts_fresh [of "ex_sys Missing []" "''emotedata.json''"]
    loadData_starts_fresh [of "ex_sys Unreadable []" "''emotedata.json''"]
    loadData_starts_fresh [of "ex_sys Unparsable []" "''emotedata.json''"]
  by (simp add: ex_sys_def read_document_def)

text \<open>
  Claim C5. A successful \<open>saveData\<close> leaves in the file a document whose \<open>totalItems\<close>
  is the length of its \<open>data\<close>, which is the sequence it was given; so does every
  run of a target that reports success, and its \<open>total\<close> is that length too.
\<close>

theorem saveData_totalItems:
  "(saveData its file sys = (True, sys') \<longrightarrow>
      (\<exists>doc. files sys' file = Stored doc \<and> data doc = Some its \<and> totalItems doc = length its)) \<and>
   (processTarget file apis sys = Some (r, sys'') \<longrightarrow> success r \<longrightarrow>
      (\<exists>doc merged. files sys'' file = Stored doc \<and> data doc = Some merged \<and>
         totalItems doc = length merged \<and> total r = length merged))"
  by (auto simp: processTarget_def saveData_def Let_def split: option.splits prod.splits)

theorem saveData_totalItems_witness:
  "fst (saveData [ex_record 1, ex_record 2] ''emotedata.json'' (ex_sys Missing [])) = True \<and>
   files (snd (saveData [ex_record 1, ex_record 2] ''emotedata.json'' (ex_sys Missing []))) ''emotedata.json'' =
     Stored \<lparr>keyword = JNull, totalItems = 2, lastUpdate = ''2024-01-01T00:00:00.000Z'',
       data = Some [ex_record 1, ex_record 2]\<rparr>"
  using saveData_totalItems [of "[ex_record 1, ex_record 2]" "''emotedata.json''" "ex_sys Missing []"
      "snd (saveData [ex_record 1, ex_record 2] ''emotedata.json'' (ex_sys Missing []))"]
  by (simp add: saveData_def ex_sys_def)

section \<open>Properties of the paginator\<close>

lemma rec_id_transform: "rec_id (transform item) = item_id item"
  by (simp add: transform_def Let_def split: option.splits)

lemma map_rec_id_transform: "map rec_id (map transform its) = map item_id its"
  by (simp add: rec_id_transform)

lemma length_fresh_stale: "length (fresh seen its) + stale seen its = length its"
  by (induction its arbitrary: seen) auto

lemma fresh_append:
  "fresh seen (xs @ ys) = fresh seen xs @ fresh (seen \<union> item_id ` set xs) ys"
  by (induction xs arbitrary: seen) (auto simp: insert_absorb)

lemma stale_append:
  "stale seen (xs @ ys) = stale seen xs + stale (seen \<union> item_id ` set xs) ys"
  by (induction xs arbitrary: seen) (auto simp: insert_absorb)

lemma fresh_ids: "seen \<union> item_id ` set (fresh seen its) = seen \<union> item_id ` set its"
proof (induction its arbitrary: seen)
  case Nil
  show ?case by simp
next
  case (Cons item its)
  show ?case
  proof (cases "item_id item \<in> seen")
    case True
    then show ?thesis using Cons.IH [of seen] by auto
  next
    case False
    have "seen \<union> item_id ` set (fresh seen (item # its)) =
        insert (item_id item) seen \<union> item_id ` set (fresh (insert (item_id item) seen) its)"
      using False by simp
    also have "\<dots> = insert (item_id item) seen \<union> item_id ` set its"
      by (rule Cons.IH)
    finally show ?thesis by simp
  qed
qed

lemma fresh_disjoint: "item \<in> set (fresh seen its) \<Longrightarrow> item_id item \<notin> seen"
  by (induction its arbitrary: seen) (auto split: if_splits)

lemma fresh_distinct: "distinct (map item_id (fresh seen its))"
proof (induction its arbitrary: seen)
  case Nil
  show ?case by simp
next
  case (Cons item its)
  show ?case using Cons.IH by (auto dest: fresh_disjoint)
qed

lemma fresh_known: "item_id ` set its \<subseteq> seen \<Longrightarrow> fresh seen its = []"
  by (induction its arbitrary: seen) auto

lemma stale_known: "item_id ` set its \<subseteq> seen \<Longrightarrow> stale seen its = length its"
  by (induction its arbitrary: seen) auto

lemma stale_pos: "item \<in> set its \<Longrightarrow> item_id item \<in> seen \<Longrightarrow> 1 \<le> stale seen its"
  by (induction its arbitrary: seen) auto

lemma fold_process_item:
  "fold process_item its (acc, ed) =
     (acc\<lparr>allItems := allItems acc @ map transform (fresh (ids ed) its),
          newCount := newCount acc + length (fresh (ids ed) its),
          duplicateCount := duplicateCount acc + stale (ids ed) its\<rparr>,
      ed\<lparr>ids := ids ed \<union> item_id ` set its\<rparr>)"
proof (induction its arbitrary: acc ed)
  case Nil
  show ?case by simp
next
  case (Cons item its)
  show ?case
  proof (cases "item_id item \<in> ids ed")
    case True
    then have step: "process_item item (acc, ed) =
        (acc\<lparr>duplicateCount := duplicateCount acc + 1\<rparr>, ed)"
      by (simp add: process_item_def)
    have "fold process_item (item # its) (acc, ed) =
        fold process_item its (process_item item (acc, ed))"
      by simp
    then show ?thesis using True unfolding step Cons.IH by (simp add: insert_absorb)
  next
    case False
    then have step: "process_item item (acc, ed) =
        (acc\<lparr>allItems := allItems acc @ [transform item], newCount := newCount acc + 1\<rparr>,
         ed\<lparr>ids := insert (item_id item) (ids ed)\<rparr>)"
      by (simp add: process_item_def)
    have "fold process_item (item # its) (acc, ed) =
        fold process_item its (process_item item (acc, ed))"
      by simp
    then show ?thesis using False unfolding step Cons.IH by simp
  qed
qed

lemma fold_process_page:
  "fold process_page pages st = fold process_item (concat (map page_items pages)) st"
  by (induction pages arbitrary: st) (simp_all add: process_page_def page_items_def split: option.splits)

lemma paginate_crawl:
  "paginate a cursor net st =
     map_option (\<lambda>(its, caught, net'). (fold process_item its st, caught, net')) (crawl a cursor net)"
proof (induction net arbitrary: cursor st)
  case Nil
  show ?case by simp
next
  case (Cons answer net)
  show ?case
    by (cases "snd (fetchJSON (answer (request_url a cursor)) 3)")
       (simp_all add: Cons.IH Let_def process_page_def page_items_def option.map_comp comp_def
             split_def split: option.splits)
qed

lemma paginate_served:
  "served a cursor net pages \<Longrightarrow>
   paginate a cursor (net @ rest) st = paginate a (next_cursor cursor pages) rest (fold process_page pages st)"
  by (induction a cursor net pages arbitrary: st rule: served.induct) (simp_all add: Let_def)

lemma fetchAPI_crawl:
  "fetchAPI a ed net =
     map_option (\<lambda>(its, caught, net').
        (\<lparr>allItems = map transform (fresh (ids ed) its),
          newCount = length (fresh (ids ed) its),
          duplicateCount = stale (ids ed) its\<rparr>,
         ed\<lparr>ids := ids ed \<union> item_id ` set its\<rparr>, net'))
       (crawl a (Some []) net)"
  by (cases "crawl a (Some []) net") (auto simp: fetchAPI_def paginate_crawl fold_process_item)

text \<open>
  Claim C3. When the upstream delivers the pages \<open>pages\<close> (pages 1 to k - 1) and the
  request for the next page is rejected with an error \<open>e\<close> (a timeout, a status other
  than 200, a body that does not parse, or a network error after the last retry),
  \<open>fetchAPI\<close> returns normally: its records are the transformed new items of those
  pages, \<open>newCount\<close> is their number, \<open>duplicateCount\<close> counts the other items of
  those pages, and the ids of those pages are in the dedup set.
\<close>

theorem fetchAPI_partial_failure:
  assumes "served a (Some []) net pages"
    and "snd (fetchJSON (answer (request_url a (next_cursor (Some []) pages))) 3) = Inl e"
  shows "fetchAPI a existingData (net @ answer # rest) =
     Some (\<lparr>allItems = map transform (fresh (ids existingData) (concat (map page_items pages))),
            newCount = length (fresh (ids existingData) (concat (map page_items pages))),
            duplicateCount = stale (ids existingData) (concat (map page_items pages))\<rparr>,
           existingData\<lparr>ids := ids existingData \<union> item_id ` set (concat (map page_items pages))\<rparr>,
           rest)"
  using assms(2)
  by (simp add: fetchAPI_def paginate_served [OF assms(1)] fold_process_page fold_process_item)

theorem fetchAPI_partial_failure_witness:
  "fetchAPI (hd APIs) \<lparr>items = [ex_record 2], ids = {JNum 2}\<rparr>
     ([ok_page [ex_item 1, ex_item 2] (Some ''c1'')] @ unavailable # [ok_page [ex_item 3] None]) =
   Some (\<lparr>allItems = [ex_record 1], newCount = 1, duplicateCount = 1\<rparr>,
         \<lparr>items = [ex_record 2], ids = {JNum 1, JNum 2}\<rparr>,
         [ok_page [ex_item 3] None])"
proof -
  have s: "served (hd APIs) (Some []) [ok_page [ex_item 1, ex_item 2] (Some ''c1'')]
      [\<lparr>res_data = Some [ex_item 1, ex_item 2], res_nextPageCursor = Some ''c1''\<rparr>]"
    by (simp add: run_defs unavailable_def)
  have f: "snd (fetchJSON (unavailable (request_url (hd APIs)
      (next_cursor (Some []) [\<lparr>res_data = Some [ex_item 1, ex_item 2], res_nextPageCursor = Some ''c1''\<rparr>]))) 3)
      = Inl (HttpStatus 503)"
    by (simp add: run_defs unavailable_def)
  show ?thesis
    using fetchAPI_partial_failure [where answer = unavailable and e = "HttpStatus 503"
        and existingData = "\<lparr>items = [ex_record 2], ids = {JNum 2}\<rparr>"
        and rest = "[ok_page [ex_item 3] None]", OF s f]
    by (simp add: page_items_def ex_item_def ex_record_def transform_def insert_commute)
qed

section \<open>Properties of the reconciler\<close>

lemma fetchAll_crawlAll:
  "fetchAll apis (merged, new, dup) ed net =
     map_option (\<lambda>(its, net').
        ((merged @ map transform (fresh (ids ed) its),
          new + length (fresh (ids ed) its),
          dup + stale (ids ed) its),
         ed\<lparr>ids := ids ed \<union> item_id ` set its\<rparr>, net'))
       (crawlAll apis net)"
proof (induction apis arbitrary: merged new dup ed net)
  case Nil
  show ?case by simp
next
  case (Cons a apis)
  show ?case
  proof (cases "crawl a (Some []) net")
    case None
    then show ?thesis by (simp add: fetchAPI_crawl)
  next
    case (Some r)
    obtain its caught net' where r: "r = (its, caught, net')" by (cases r)
    show ?thesis
    proof (cases "crawlAll apis net'")
      case None
      then show ?thesis using Some r by (simp add: fetchAPI_crawl Cons.IH)
    next
      case (Some q)
      obtain its' rest where q: "q = (its', rest)" by (cases q)
      show ?thesis using \<open>crawl a (Some []) net = Some r\<close> r Some q
        by (simp add: fetchAPI_crawl Cons.IH fresh_append stale_append Un_assoc image_Un)
    qed
  qed
qed

lemma gather_crawlAll:
  "gather file apis sys =
     map_option (\<lambda>(its, net').
        ((items (loadData file sys) @ map transform (fresh (ids (loadData file sys)) its),
          length (fresh (ids (loadData file sys)) its),
          stale (ids (loadData file sys)) its),
         (loadData file sys)\<lparr>ids := ids (loadData file sys) \<union> item_id ` set its\<rparr>, net'))
       (crawlAll apis (upstream sys))"
  by (simp add: gather_def Let_def fetchAll_crawlAll)

text \<open>
  The run of a target returns when the upstream has, for each of its sources, an answer
  that ends the pagination.
\<close>

lemma grouped_targets:
  "grouped = [(''emotedata.json'', [APIs ! 0, APIs ! 1]), (''animationdata.json'', [APIs ! 2])]"
  by (simp add: grouped_def APIs_def obj_push_def)

lemma crawl_returns:
  "0 < length (filter ends_pagination net) \<Longrightarrow>
   \<exists>its caught net'. crawl a cursor net = Some (its, caught, net') \<and>
     length (filter ends_pagination net) \<le> Suc (length (filter ends_pagination net'))"
proof (induction net arbitrary: cursor)
  case Nil
  then show ?case by simp
next
  case (Cons answer net)
  show ?case
  proof (cases "snd (fetchJSON (answer (request_url a cursor)) 3)")
    case (Inl e)
    then show ?thesis by simp
  next
    case (Inr res)
    show ?thesis
    proof (cases "more_pages (res_nextPageCursor res)")
      case False
      with Inr show ?thesis by simp
    next
      case True
      with Inr have "\<not> ends_pagination answer"
        by (auto simp: ends_pagination_def intro!: exI [of _ "request_url a cursor"])
      with Cons.prems have "0 < length (filter ends_pagination net)" by simp
      from Cons.IH [OF this, of "res_nextPageCursor res"] obtain its caught net' where
        "crawl a (res_nextPageCursor res) net = Some (its, caught, net')"
        "length (filter ends_pagination net) \<le> Suc (length (filter ends_pagination net'))"
        by blast
      with Inr True \<open>\<not> ends_pagination answer\<close> show ?thesis by simp
    qed
  qed
qed

lemma crawlAll_returns:
  "length apis \<le> length (filter ends_pagination net) \<Longrightarrow> crawlAll apis net \<noteq> None"
proof (induction apis arbitrary: net)
  case Nil
  show ?case by simp
next
  case (Cons a apis)
  from Cons.prems have "0 < length (filter ends_pagination net)"
    by (cases "filter ends_pagination net") simp_all
  from crawl_returns [OF this, of a "Some []"] obtain its caught net' where
    c: "crawl a (Some []) net = Some (its, caught, net')"
    and l: "length (filter ends_pagination net) \<le> Suc (length (filter ends_pagination net'))"
    by blast
  from l Cons.prems have "length apis \<le> length (filter ends_pagination net')" by simp
  from Cons.IH [OF this] c show ?case by auto
qed

lemma processTarget_returns:
  "length apis \<le> length (filter ends_pagination (upstream sys)) \<Longrightarrow>
   processTarget file apis sys \<noteq> None"
  using crawlAll_returns [of apis "upstream sys"]
  by (auto simp: processTarget_def gather_crawlAll split: prod.splits)

lemma count_list_distinct: "distinct xs \<Longrightarrow> x \<in> set xs \<Longrightarrow> count_list xs x = 1"
  by (induction xs) auto

lemma crawl_first_page:
  "crawl a cursor (answer # net) = Some (its, caught, net') \<Longrightarrow>
   snd (fetchJSON (answer (request_url a cursor)) 3) = Inr res \<Longrightarrow>
   set (page_items res) \<subseteq> set its"
  by (auto split: if_splits)

lemma processTarget_gather:
  "processTarget file apis sys = Some (r, sys') \<Longrightarrow>
   \<exists>merged ed net. gather file apis sys = Some ((merged, newTotal r, dupTotal r), ed, net) \<and>
     total r = length merged \<and> (success r \<longrightarrow> saved_data sys' file = Some merged)"
  by (auto simp: processTarget_def saveData_def saved_data_def Let_def
      split: option.splits prod.splits)




text \<open>
  Claim C2. Source A has added the id \<open>x\<close> in this run, and the first page of source B,
  processed next for the same target, holds an item with the id \<open>x\<close>. Then the repeat
  raises the run's \<open>dupTotal\<close> by at least one over the duplicates that source A
  counted, and \<open>x\<close> occurs exactly once among the ids of the merged sequence, which is
  the \<open>data\<close> of the file when the run reports success.
\<close>

theorem second_source_counts_duplicate:
  assumes "fetchAPI A (loadData file sys) (upstream sys) = Some (resultA, edA, answer # rest)"
    and "x \<in> rec_id ` set (allItems resultA)"
    and "snd (fetchJSON (answer (request_url B (Some []))) 3) = Inr res"
    and "x \<in> item_id ` set (page_items res)"
    and "processTarget file [A, B] sys = Some (r, sys')"
  shows "duplicateCount resultA + 1 \<le> dupTotal r \<and>
    (\<exists>merged ed net. gather file [A, B] sys = Some ((merged, newTotal r, dupTotal r), ed, net) \<and>
       count_list (map rec_id merged) x = 1 \<and> (success r \<longrightarrow> saved_data sys' file = Some merged))"
proof -
  let ?S = "ids (loadData file sys)"
  from processTarget_gather [OF assms(5)] obtain merged ed net where
    g: "gather file [A, B] sys = Some ((merged, newTotal r, dupTotal r), ed, net)"
    and s: "success r \<longrightarrow> saved_data sys' file = Some merged" by blast
  from assms(1) obtain itsA cA where
    cA: "crawl A (Some []) (upstream sys) = Some (itsA, cA, answer # rest)"
    and rA: "allItems resultA = map transform (fresh ?S itsA)"
    and dA: "duplicateCount resultA = stale ?S itsA"
    by (auto simp: fetchAPI_crawl)
  from g cA obtain itsB cB where
    cB: "crawl B (Some []) (answer # rest) = Some (itsB, cB, net)"
    and m: "merged = items (loadData file sys) @ map transform (fresh ?S (itsA @ itsB))"
    and d: "dupTotal r = stale ?S (itsA @ itsB)"
    by (auto simp: gather_crawlAll split: option.splits)
  from assms(2) rA have xA: "x \<in> item_id ` set (fresh ?S itsA)"
    by (auto simp: rec_id_transform)
  then have xnew: "x \<notin> ?S" by (auto dest: fresh_disjoint)
  from xA fresh_ids [of ?S itsA] have xin: "x \<in> ?S \<union> item_id ` set itsA" by blast
  from crawl_first_page [OF cB assms(3)] assms(4) obtain item where
    item: "item \<in> set itsB" "item_id item = x" by auto
  from item(1) have "1 \<le> stale (?S \<union> item_id ` set itsA) itsB"
  proof (rule stale_pos)
    show "item_id item \<in> ?S \<union> item_id ` set itsA" using xin item(2) by simp
  qed
  then have dup: "duplicateCount resultA + 1 \<le> dupTotal r" unfolding d dA stale_append by simp
  have "x \<in> set (map item_id (fresh ?S (itsA @ itsB)))" using xA by (simp add: fresh_append)
  then have "count_list (map item_id (fresh ?S (itsA @ itsB))) x = 1"
    by (intro count_list_distinct fresh_distinct)
  moreover have "count_list (map rec_id (items (loadData file sys))) x = 0"
    using xnew by (simp add: loadData_ids)
  ultimately have "count_list (map rec_id merged) x = 1"
    unfolding m by (simp add: rec_id_transform comp_def)
  with dup g s show ?thesis by blast
qed

theorem second_source_counts_duplicate_witness:
  "fetchAPI (APIs ! 0) (loadData ''emotedata.json'' (ex_sys Missing ex_repeats))
       (upstream (ex_sys Missing ex_repeats)) =
     Some (\<lparr>allItems = [ex_record 1, ex_record 2], newCount = 2, duplicateCount = 1\<rparr>,
           \<lparr>items = [], ids = {JNum 1, JNum 2}\<rparr>, [ok_page [ex_item 2, ex_item 3] None]) \<and>
   after_run ''emotedata.json''
     (processTarget ''emotedata.json'' [APIs ! 0, APIs ! 1] (ex_sys Missing ex_repeats)) =
     Some (\<lparr>success = True, total = 3, newTotal = 3, dupTotal = 2\<rparr>,
           Some [ex_record 1, ex_record 2, ex_record 3]) \<and>
   (1::nat) + 1 \<le> 2 \<and>
   count_list (map rec_id [ex_record 1, ex_record 2, ex_record 3]) (JNum 2) = 1"
proof -
  let ?sys = "ex_sys Missing ex_repeats"
  let ?resultA = "\<lparr>allItems = [ex_record 1, ex_record 2], newCount = 2, duplicateCount = 1\<rparr>"
  have a: "fetchAPI (APIs ! 0) (loadData ''emotedata.json'' ?sys) (upstream ?sys) =
      Some (?resultA, \<lparr>items = [], ids = {JNum 1, JNum 2}\<rparr>, ok_page [ex_item 2, ex_item 3] None # [])"
    by (simp add: run_defs ex_repeats_def insert_commute)
  have x: "JNum 2 \<in> rec_id ` set (allItems ?resultA)"
    by (simp add: ex_record_def)
  have b: "snd (fetchJSON (ok_page [ex_item 2, ex_item 3] None (request_url (APIs ! 1) (Some []))) 3) =
      Inr \<lparr>res_data = Some [ex_item 2, ex_item 3], res_nextPageCursor = None\<rparr>"
    by (simp add: run_defs)
  have y: "JNum 2 \<in> item_id ` set (page_items \<lparr>res_data = Some [ex_item 2, ex_item 3], res_nextPageCursor = None\<rparr>)"
    by (simp add: page_items_def ex_item_def)
  have run: "after_run ''emotedata.json'' (processTarget ''emotedata.json'' [APIs ! 0, APIs ! 1] ?sys) =
      Some (\<lparr>success = True, total = 3, newTotal = 3, dupTotal = 2\<rparr>,
            Some [ex_record 1, ex_record 2, ex_record 3])"
    by (simp add: run_defs ex_repeats_def)
  then obtain r sys' where p: "processTarget ''emotedata.json'' [APIs ! 0, APIs ! 1] ?sys = Some (r, sys')"
    and r: "success r" and d: "dupTotal r = 2"
    and s: "saved_data sys' ''emotedata.json'' = Some [ex_record 1, ex_record 2, ex_record 3]"
    by (auto simp: after_run_def)
  from second_source_counts_duplicate [OF a x b y p] r s d
  have "(1::nat) + 1 \<le> 2"
    and "count_list (map rec_id [ex_record 1, ex_record 2, ex_record 3]) (JNum 2) = 1"
    by auto
  with a run show ?thesis by simp
qed

text \<open>
  Claim C1, as amended. After a run of a target that saved its document, a second run that
  starts from that file and gets the same answers from the upstream adds nothing
  (\<open>newTotal = 0\<close>), counts every item it receives as a duplicate, that is
  \<open>dupTotal\<close> is the first run's \<open>newTotal\<close> plus its \<open>dupTotal\<close>, and saves the same
  \<open>data\<close>.
\<close>

theorem rerun_is_idempotent:
  assumes "processTarget file apis sys = Some (r1, sys1)" and "success r1"
    and "files sys2 file = files sys1 file" and "upstream sys2 = upstream sys"
  shows "\<exists>r2 sys3. processTarget file apis sys2 = Some (r2, sys3) \<and>
     newTotal r2 = 0 \<and> dupTotal r2 = newTotal r1 + dupTotal r1 \<and> total r2 = total r1 \<and>
     (success r2 \<longrightarrow> saved_data sys3 file = saved_data sys1 file)"
proof -
  let ?S = "ids (loadData file sys)"
  from processTarget_gather [OF assms(1)] assms(2) obtain merged ed net where
    g: "gather file apis sys = Some ((merged, newTotal r1, dupTotal r1), ed, net)"
    and t: "total r1 = length merged"
    and s: "saved_data sys1 file = Some merged" by blast
  from g obtain its where c: "crawlAll apis (upstream sys) = Some (its, net)"
    and m: "merged = items (loadData file sys) @ map transform (fresh ?S its)"
    and n: "newTotal r1 = length (fresh ?S its)"
    and d: "dupTotal r1 = stale ?S its"
    by (auto simp: gather_crawlAll)
  from s have l2: "items (loadData file sys2) = merged"
    by (auto simp: loadData_def read_document_def saved_data_def assms(3) Let_def
        split: file_state.splits option.splits)
  have "ids (loadData file sys2) = rec_id ` set merged" by (simp add: loadData_ids l2)
  also have "\<dots> = ?S \<union> item_id ` set (fresh ?S its)"
    by (simp add: m image_Un image_image rec_id_transform loadData_ids)
  also have "\<dots> = ?S \<union> item_id ` set its" by (rule fresh_ids)
  finally have known: "item_id ` set its \<subseteq> ids (loadData file sys2)" by blast
  have g2: "gather file apis sys2 =
      Some ((merged, 0, length its), (loadData file sys2)\<lparr>ids := ids (loadData file sys2) \<union> item_id ` set its\<rparr>, net)"
    by (simp add: gather_crawlAll assms(4) c fresh_known [OF known] stale_known [OF known] l2)
  obtain saved sys3 where sv: "saveData merged file (sys2\<lparr>upstream := net\<rparr>) = (saved, sys3)"
    by (cases "saveData merged file (sys2\<lparr>upstream := net\<rparr>)")
  have p2: "processTarget file apis sys2 =
      Some (\<lparr>success = saved, total = length merged, newTotal = 0, dupTotal = length its\<rparr>, sys3)"
    by (simp add: processTarget_def g2 sv)
  have "saved \<longrightarrow> saved_data sys3 file = Some merged"
    using sv by (auto simp: saveData_def saved_data_def Let_def split: option.splits)
  moreover have "length its = newTotal r1 + dupTotal r1"
    unfolding n d by (simp add: length_fresh_stale)
  ultimately show ?thesis using p2 t s by simp
qed

theorem rerun_is_idempotent_witness:
  "after_run ''emotedata.json'' (processTarget ''emotedata.json'' (take 2 APIs) (ex_sys Missing ex_two_pages)) =
     Some (\<lparr>success = True, total = 3, newTotal = 3, dupTotal = 1\<rparr>,
           Some [ex_record 1, ex_record 2, ex_record 3]) \<and>
   after_run ''emotedata.json'' (rerun ''emotedata.json'' (take 2 APIs) (ex_sys Missing ex_two_pages)) =
     Some (\<lparr>success = True, total = 3, newTotal = 0, dupTotal = 3 + 1\<rparr>,
           Some [ex_record 1, ex_record 2, ex_record 3])"
proof -
  let ?sys = "ex_sys Missing ex_two_pages"
  let ?run = "processTarget ''emotedata.json'' (take 2 APIs) ?sys"
  have first: "after_run ''emotedata.json'' ?run =
      Some (\<lparr>success = True, total = 3, newTotal = 3, dupTotal = 1\<rparr>,
            Some [ex_record 1, ex_record 2, ex_record 3])"
    by (simp add: run_defs ex_two_pages_def)
  then obtain r1 sys1 where p: "?run = Some (r1, sys1)"
    and r1: "r1 = \<lparr>success = True, total = 3, newTotal = 3, dupTotal = 1\<rparr>"
    and d1: "saved_data sys1 ''emotedata.json'' = Some [ex_record 1, ex_record 2, ex_record 3]"
    by (auto simp: after_run_def)
  from r1 have s: "success r1" by simp
  have again: "rerun ''emotedata.json'' (take 2 APIs) ?sys =
      processTarget ''emotedata.json'' (take 2 APIs) (sys1\<lparr>upstream := upstream ?sys\<rparr>)"
    by (simp add: rerun_def p)
  from rerun_is_idempotent [OF p s, of "sys1\<lparr>upstream := upstream ?sys\<rparr>"]
  obtain r2 sys3 where
    p2: "processTarget ''emotedata.json'' (take 2 APIs) (sys1\<lparr>upstream := upstream ?sys\<rparr>) = Some (r2, sys3)"
    and n2: "newTotal r2 = 0" and d2: "dupTotal r2 = newTotal r1 + dupTotal r1"
    and t2: "total r2 = total r1"
    and k2: "success r2 \<longrightarrow> saved_data sys3 ''emotedata.json'' = saved_data sys1 ''emotedata.json''"
    by auto
  have w: "write_error sys1 ''emotedata.json'' = None"
    using p by (auto simp: processTarget_def saveData_def ex_sys_def Let_def split: option.splits prod.splits)
  have s2: "success r2" using p2 w
    by (auto simp: processTarget_def saveData_def Let_def split: option.splits prod.splits)
  with n2 d2 t2 r1 have "r2 = \<lparr>success = True, total = 3, newTotal = 0, dupTotal = 3 + 1\<rparr>"
    by (cases r2) simp
  moreover from s2 k2 d1
  have "saved_data sys3 ''emotedata.json'' = Some [ex_record 1, ex_record 2, ex_record 3]"
    by simp
  ultimately show ?thesis using first again p2 by (simp add: after_run_def)
qed

text \<open>
  Claim C1 as stated fails: the two sources of "emotedata.json" both return the item 2.
  The first run adds three items and counts one duplicate; the second run counts four
  duplicates, not three.
\<close>

theorem rerun_duplicate_count_counterexample:
  "map_option fst (processTarget ''emotedata.json'' (take 2 APIs)
      (ex_sys Missing [ok_page [ex_item 1, ex_item 2] None, ok_page [ex_item 2, ex_item 3] None])) =
     Some \<lparr>success = True, total = 3, newTotal = 3, dupTotal = 1\<rparr> \<and>
   map_option fst (rerun ''emotedata.json'' (take 2 APIs)
      (ex_sys Missing [ok_page [ex_item 1, ex_item 2] None, ok_page [ex_item 2, ex_item 3] None])) =
     Some \<lparr>success = True, total = 3, newTotal = 0, dupTotal = 4\<rparr> \<and>
   map_option (dupTotal \<circ> fst) (rerun ''emotedata.json'' (take 2 APIs)
      (ex_sys Missing [ok_page [ex_item 1, ex_item 2] None, ok_page [ex_item 2, ex_item 3] None])) \<noteq>
   map_option (newTotal \<circ> fst) (processTarget ''emotedata.json'' (take 2 APIs)
      (ex_sys Missing [ok_page [ex_item 1, ex_item 2] None, ok_page [ex_item 2, ex_item 3] None]))"
  by (simp add: run_defs rerun_def)

end
